theory Spec2Isabelle
  imports Complex_Main "HOL-Library.Multiset"
begin

section \<open>The URL registry of the shortener service\<close>

text \<open>
  The theory embeds the class \<open>URLService\<close> (the registry of shortened links, its
  creation, lookup, click recording, listing and expiry sweep). The service is a
  singleton object with one mutable field, the array \<open>urls\<close>, mirrored into the
  browser's local storage under the key \<open>shortened_urls\<close>. Everything an operation
  reads from outside the object (the clock, the random source, the URL constructor of
  the platform, the outcome of a storage write) is an explicit input, collected in the
  record \<open>env\<close>; everything it changes is in the record \<open>registry\<close>, taken and
  returned. Calls to the logger are left out: the logger keeps its own list and its own
  storage key and never touches the registry.

  Timestamps are the integer millisecond time values of the source's \<open>Date\<close> objects.
  The source stores them as ISO strings made by \<open>toISOString\<close> and reads them back
  with \<open>new Date\<close>; on valid dates that round trip is the identity on time values.
\<close>

subsection \<open>Data\<close>

record click_event =
  click_id :: rat
  timestamp :: int
  source :: string
  location :: string
  userAgent :: string

record url_data =
  url_id :: rat
  originalURL :: string
  shortCode :: string
  shortURL :: string
  createdAt :: int
  expiresAt :: int
  validityMinutes :: int
  clicks :: "click_event list"
  totalClicks :: int

text \<open>
  The in-memory array and the blob last written under \<open>shortened_urls\<close>
  (\<open>None\<close> while nothing has been written).
\<close>

record registry =
  urls :: "url_data list"
  stored :: "url_data list option"

text \<open>
  What one call reads from its surroundings:
  \<^item> \<open>accepts\<close>: whether \<open>new URL(s)\<close> returns normally on \<open>s\<close>;
  \<^item> \<open>now\<close>: the time value of the first \<open>new Date()\<close> of the call;
  \<^item> \<open>rnd\<close>: the successive values of \<open>Math.floor(Math.random() * chars.length)\<close>;
  \<^item> \<open>fresh_id\<close>: the value of \<open>Date.now() + Math.random()\<close>;
  \<^item> \<open>later\<close>: the time value of the \<open>new Date()\<close> that stamps a click;
  \<^item> \<open>place\<close>: the label \<open>getLocationData\<close> resolves to;
  \<^item> \<open>agent\<close>: \<open>navigator.userAgent\<close>;
  \<^item> \<open>storage_ok\<close>: whether \<open>localStorage.setItem\<close> returns normally.
\<close>

record env =
  accepts :: "string \<Rightarrow> bool"
  now :: int
  rnd :: "nat \<Rightarrow> nat"
  fresh_id :: rat
  later :: int
  place :: string
  agent :: string
  storage_ok :: bool

text \<open>
  The failures of the service. The first six are the \<open>Error\<close>s it throws itself;
  \<open>RangeError\<close> is the one \<open>toISOString\<close> throws on a date outside the
  representable range.
\<close>

datatype error =
  InvalidURL
  | InvalidValidity
  | InvalidShortcodeFormat
  | ShortcodeConflict
  | NotFound
  | Expired
  | RangeError

fun message :: "error \<Rightarrow> string" where
  "message InvalidURL = ''Invalid URL format''"
| "message InvalidValidity = ''Validity period must be a positive integer''"
| "message InvalidShortcodeFormat =
     ''Custom shortcode must be alphanumeric and max 20 characters''"
| "message ShortcodeConflict = ''Custom shortcode already exists''"
| "message NotFound = ''URL not found''"
| "message Expired = ''URL has expired''"
| "message RangeError = ''Invalid time value''"

subsection \<open>Persistence and helpers\<close>

text \<open>
  \<open>saveURLs\<close> writes the whole array; a failing write is caught and logged, and
  leaves the blob as it was.
\<close>

definition saveURLs :: "env \<Rightarrow> registry \<Rightarrow> registry" where
  "saveURLs e s = (if storage_ok e then s\<lparr>stored := Some (urls s)\<rparr> else s)"

definition chars :: string where
  "chars = ''abcdefghijklmnopqrstuvwxyzABCDEFGHIJKLMNOPQRSTUVWXYZ0123456789''"

text \<open>\<open>charAt\<close> of JavaScript: the empty string outside the range.\<close>

definition charAt :: "string \<Rightarrow> nat \<Rightarrow> string" where
  "charAt s i = (if i < length s then [s ! i] else [])"

text \<open>
  \<open>generateShortCode\<close> appends \<open>len\<close> characters, one per draw; \<open>k\<close> is the
  number of draws consumed before the call.
\<close>

definition generateShortCode :: "(nat \<Rightarrow> nat) \<Rightarrow> nat \<Rightarrow> nat \<Rightarrow> string" where
  "generateShortCode r k len = concat (map (\<lambda>i. charAt chars (r (k + i))) [0..<len])"

definition isValidURL :: "env \<Rightarrow> string \<Rightarrow> bool" where
  "isValidURL e url = (if accepts e url then True else False)"

definition isShortCodeUnique :: "registry \<Rightarrow> string \<Rightarrow> bool" where
  "isShortCodeUnique s c = (\<not> list_ex (\<lambda>url. shortCode url = c) (urls s))"

text \<open>
  The \<open>do \<dots> while\<close> loop of the auto-generation path: draw a code of six
  characters, stop when no record has it. The loop has no bound in the source, so the
  model is a partial function: \<open>None\<close> is a loop that never ends.
\<close>

partial_function (option) freshShortCode :: "registry \<Rightarrow> (nat \<Rightarrow> nat) \<Rightarrow> nat \<Rightarrow> string option"
  where
  "freshShortCode s r k =
     (let c = generateShortCode r k 6
      in if isShortCodeUnique s c then Some c else freshShortCode s r (k + 6))"

text \<open>The character class \<open>[a-zA-Z0-9]\<close>.\<close>

definition alnum :: "char \<Rightarrow> bool" where
  "alnum c = (let n = (of_char c :: nat)
              in (97 \<le> n \<and> n \<le> 122) \<or> (65 \<le> n \<and> n \<le> 90) \<or> (48 \<le> n \<and> n \<le> 57))"

text \<open>The test \<open>/^[a-zA-Z0-9]+$/\<close>: one character or more, every one in the class.\<close>

definition matchesAlnum :: "string \<Rightarrow> bool" where
  "matchesAlnum c = (c \<noteq> [] \<and> list_all alnum c)"

text \<open>Truthiness of the argument \<open>customShortCode\<close>: \<open>null\<close> and the empty string are falsy.\<close>

fun truthy :: "string option \<Rightarrow> bool" where
  "truthy None = False"
| "truthy (Some c) = (c \<noteq> [])"

text \<open>
  A \<open>Date\<close> holds a time value only within 8.64e15 ms of the epoch; outside it the
  date is invalid and \<open>toISOString\<close> throws.
\<close>

definition validTime :: "int \<Rightarrow> bool" where
  "validTime t = (\<bar>t\<bar> \<le> 8640000000000000)"

subsection \<open>Operations\<close>

text \<open>
  The branch of \<open>createShortURL\<close> that settles the short code: the checks of a
  custom code, or the generation loop. The source tests the argument for truthiness,
  so the empty string takes the branch of \<open>null\<close>.
\<close>

definition chooseShortCode :: "env \<Rightarrow> string option \<Rightarrow> registry \<Rightarrow> (error + string) option" where
  "chooseShortCode e customShortCode s =
     (case (if truthy customShortCode then customShortCode else None) of
        Some c \<Rightarrow>
          if \<not> matchesAlnum c \<or> length c > 20 then Some (Inl InvalidShortcodeFormat)
          else if \<not> isShortCodeUnique s c then Some (Inl ShortcodeConflict)
          else Some (Inr c)
      | None \<Rightarrow> map_option Inr (freshShortCode s (rnd e) 0))"

text \<open>
  \<open>createShortURL\<close>, check by check in the order of the source. The validity period
  is an integer here, so of the test \<open>!Number.isInteger(v) || v <= 0\<close> the second
  half remains. The expiry date is \<open>new Date(now.getTime() + v * 60 * 1000)\<close>; when
  that date is valid, \<open>v * 60 * 1000\<close> is a multiple of 60000 below \<open>2^58\<close> and the
  sum an integer below \<open>2^53\<close>, so the source's double arithmetic is exact and the
  integer arithmetic below is what it computes. Otherwise \<open>toISOString\<close> throws
  before the record is built. Every failure happens before \<open>push\<close>.
\<close>

definition createShortURL ::
  "env \<Rightarrow> string \<Rightarrow> string option \<Rightarrow> int \<Rightarrow> registry \<Rightarrow> ((error + url_data) \<times> registry) option"
  where
  "createShortURL e origURL customShortCode validity s =
     (if \<not> isValidURL e origURL then Some (Inl InvalidURL, s)
      else if validity \<le> 0 then Some (Inl InvalidValidity, s)
      else
        (case chooseShortCode e customShortCode s of
           None \<Rightarrow> None
         | Some (Inl err) \<Rightarrow> Some (Inl err, s)
         | Some (Inr code) \<Rightarrow>
             (let expiry = now e + validity * 60 * 1000
              in if \<not> validTime expiry then Some (Inl RangeError, s)
                 else
                   (let urlData = \<lparr>url_id = fresh_id e, originalURL = origURL,
                                   shortCode = code,
                                   shortURL = ''http://localhost:3000/'' @ code,
                                   createdAt = now e, expiresAt = expiry,
                                   validityMinutes = validity,
                                   clicks = [], totalClicks = 0\<rparr>
                    in Some (Inr urlData, saveURLs e (s\<lparr>urls := urls s @ [urlData]\<rparr>))))))"

definition getURLByShortCode :: "registry \<Rightarrow> string \<Rightarrow> url_data option" where
  "getURLByShortCode s c = find (\<lambda>u. shortCode u = c) (urls s)"

definition isURLExpired :: "int \<Rightarrow> url_data \<Rightarrow> bool" where
  "isURLExpired t urlData = (t > expiresAt urlData)"

text \<open>
  \<open>recordClick\<close> changes the object that \<open>find\<close> returned, which is the array's own
  element: the first record with the code is replaced by its updated version. The
  source awaits the location lookup between the expiry check and the update; the model
  runs one call to its end, with no other call in between.
\<close>

fun updateFirst :: "('a \<Rightarrow> bool) \<Rightarrow> ('a \<Rightarrow> 'a) \<Rightarrow> 'a list \<Rightarrow> 'a list" where
  "updateFirst p f [] = []"
| "updateFirst p f (x # xs) = (if p x then f x # xs else x # updateFirst p f xs)"

definition addClick :: "click_event \<Rightarrow> url_data \<Rightarrow> url_data" where
  "addClick clickData urlData =
     (let cs = clicks urlData @ [clickData]
      in urlData\<lparr>clicks := cs, totalClicks := int (length cs)\<rparr>)"

definition recordClick :: "env \<Rightarrow> string \<Rightarrow> string \<Rightarrow> registry \<Rightarrow> (error + url_data) \<times> registry" where
  "recordClick e code src s =
     (case getURLByShortCode s code of
        None \<Rightarrow> (Inl NotFound, s)
      | Some urlData \<Rightarrow>
          if isURLExpired (now e) urlData then (Inl Expired, s)
          else
            (let clickData = \<lparr>click_id = fresh_id e, timestamp = later e, source = src,
                              location = place e, userAgent = agent e\<rparr>
             in (Inr (addClick clickData urlData),
                 saveURLs e (s\<lparr>urls := updateFirst (\<lambda>u. shortCode u = code)
                                                   (addClick clickData) (urls s)\<rparr>))))"

text \<open>
  \<open>getAllURLs\<close> calls \<open>sort\<close> on the array itself and returns that same array.
  \<open>Array.prototype.sort\<close> is stable, and the comparator orders by \<open>createdAt\<close>,
  later first: the result is the stable sort on the negated time value.
\<close>

definition getAllURLs :: "registry \<Rightarrow> url_data list \<times> registry" where
  "getAllURLs s =
     (let sorted_urls = sort_key (\<lambda>u. - createdAt u) (urls s)
      in (sorted_urls, s\<lparr>urls := sorted_urls\<rparr>))"

text \<open>
  \<open>deleteExpiredURLs\<close> filters with \<open>isURLExpired\<close>, which reads the clock for
  every record; one sweep is modelled at one clock value.
\<close>

definition deleteExpiredURLs :: "env \<Rightarrow> registry \<Rightarrow> int \<times> registry" where
  "deleteExpiredURLs e s =
     (let initialCount = int (length (urls s));
          s1 = s\<lparr>urls := filter (\<lambda>url. \<not> isURLExpired (now e) url) (urls s)\<rparr>;
          deletedCount = initialCount - int (length (urls s1))
      in (deletedCount, if deletedCount > 0 then saveURLs e s1 else s1))"

subsection \<open>Runs of operations\<close>

text \<open>
  The calls that can change the registry, as data, and the registry after one call
  (\<open>None\<close> when the call never returns). A call that throws leaves the registry it
  returns with its error.
\<close>

datatype operation =
  Create string "string option" int
  | Click string string
  | ListAll
  | Sweep

fun exec :: "env \<Rightarrow> operation \<Rightarrow> registry \<Rightarrow> registry option" where
  "exec e (Create url custom v) s = map_option snd (createShortURL e url custom v s)"
| "exec e (Click c src) s = Some (snd (recordClick e c src s))"
| "exec e ListAll s = Some (snd (getAllURLs s))"
| "exec e Sweep s = Some (snd (deleteExpiredURLs e s))"

text \<open>A record without its click history: the part no operation is meant to change.\<close>

definition frozen :: "url_data \<Rightarrow> url_data" where
  "frozen u = u\<lparr>clicks := [], totalClicks := 0\<rparr>"

text \<open>The two invariants of the data model that the claims rely on.\<close>

definition clicksCounted :: "registry \<Rightarrow> bool" where
  "clicksCounted s = list_all (\<lambda>u. totalClicks u = int (length (clicks u))) (urls s)"

definition codesDistinct :: "registry \<Rightarrow> bool" where
  "codesDistinct s = distinct (map shortCode (urls s))"

text \<open>
  \<open>k\<close> calls of \<open>recordClick\<close> on one code, each with its own surroundings and
  source tag, every one returning normally (\<open>None\<close> as soon as one throws).
\<close>

fun recordClicks :: "(env \<times> string) list \<Rightarrow> string \<Rightarrow> registry \<Rightarrow> registry option" where
  "recordClicks [] c s = Some s"
| "recordClicks ((e, src) # rest) c s =
     (case recordClick e c src s of
        (Inl err, s1) \<Rightarrow> None
      | (Inr u, s1) \<Rightarrow> recordClicks rest c s1)"

text \<open>
  \<open>N\<close> calls of \<open>createShortURL\<close> without a custom code, every one returning a
  record: the records in the order of the calls, and the registry after the last.
\<close>

fun createAll :: "(env \<times> string \<times> int) list \<Rightarrow> registry \<Rightarrow> (url_data list \<times> registry) option" where
  "createAll [] s = Some ([], s)"
| "createAll ((e, url, v) # rest) s =
     (case createShortURL e url None v s of
        Some (Inr u, s1) \<Rightarrow> map_option (\<lambda>(us, s2). (u # us, s2)) (createAll rest s1)
      | _ \<Rightarrow> None)"

text \<open>
  The codes the generation loop of a call would draw in its first \<open>m\<close> rounds, and
  the requests that are bound to return a record: the URL is accepted, the validity
  period is positive, the expiry date is representable, and those \<open>m\<close> rounds draw
  more different codes than the registry \<open>s\<close> can hold after \<open>k\<close> further creations.
\<close>

definition drawnCodes :: "env \<Rightarrow> nat \<Rightarrow> string list" where
  "drawnCodes e m = map (\<lambda>n. generateShortCode (rnd e) (6 * n) 6) [0..<m]"

definition creatable :: "registry \<Rightarrow> nat \<Rightarrow> nat \<Rightarrow> env \<times> string \<times> int \<Rightarrow> bool" where
  "creatable s k m req =
     (case req of (e, url, v) \<Rightarrow>
        isValidURL e url \<and> 0 < v \<and> validTime (now e + v * 60000)
        \<and> length (urls s) + k \<le> length (remdups (drawnCodes e m)))"

text \<open>
  Following the record behind a code through a run of calls: the record the code
  resolves to after the last call, provided the code resolves before and after every
  call of the run (so the record was never swept away in between).
\<close>

fun tracked :: "string \<Rightarrow> (env \<times> operation) list \<Rightarrow> registry \<Rightarrow> url_data option" where
  "tracked c [] s = getURLByShortCode s c"
| "tracked c ((e, op) # rest) s =
     (case getURLByShortCode s c of
        None \<Rightarrow> None
      | Some u \<Rightarrow> (case exec e op s of None \<Rightarrow> None | Some s1 \<Rightarrow> tracked c rest s1))"

subsection \<open>Sample data\<close>

text \<open>
  Concrete surroundings and registries on which the theorems below are instantiated:
  a clock at 1700000000000 ms, a random source that draws 0, 1, 2, \<dots> (so the first
  generated code is \<open>abcdef\<close>), a URL constructor that accepts one address, and two
  links, the older of which has expired at that clock.
\<close>

definition demo_env :: env where
  "demo_env = \<lparr>accepts = (\<lambda>u. u = ''https://example.com''), now = 1700000000000,
     rnd = (\<lambda>n. n), fresh_id = 1700000000000, later = 1700000000005,
     place = ''London, UK'', agent = ''Mozilla/5.0'', storage_ok = True\<rparr>"

definition link_old :: url_data where
  "link_old = \<lparr>url_id = 1, originalURL = ''https://example.com'', shortCode = ''promo1'',
     shortURL = ''http://localhost:3000/promo1'', createdAt = 1000, expiresAt = 61000,
     validityMinutes = 1, clicks = [], totalClicks = 0\<rparr>"

definition link_new :: url_data where
  "link_new = \<lparr>url_id = 2, originalURL = ''https://example.com'', shortCode = ''promo2'',
     shortURL = ''http://localhost:3000/promo2'', createdAt = 2000, expiresAt = 1800000002000,
     validityMinutes = 30000000, clicks = [], totalClicks = 0\<rparr>"

definition two_links :: registry where
  "two_links = \<lparr>urls = [link_old, link_new], stored = None\<rparr>"

definition no_links :: registry where
  "no_links = \<lparr>urls = [], stored = None\<rparr>"

text \<open>
  The link that the sample surroundings create in the empty registry, the registry
  holding it, surroundings a minute later, and some runs.
\<close>

definition made_link :: url_data where
  "made_link = \<lparr>url_id = 1700000000000, originalURL = ''https://example.com'',
     shortCode = ''abcdef'', shortURL = ''http://localhost:3000/abcdef'',
     createdAt = 1700000000000, expiresAt = 1700001800000,
     validityMinutes = 30, clicks = [], totalClicks = 0\<rparr>"

definition one_link :: registry where
  "one_link = \<lparr>urls = [made_link], stored = Some [made_link]\<rparr>"

definition later_env :: env where
  "later_env = demo_env\<lparr>now := 1700000060001\<rparr>"


definition demo_requests :: "(env \<times> string \<times> int) list" where
  "demo_requests = [(demo_env, ''https://example.com'', 30), (demo_env, ''https://example.com'', 60)]"


definition promo_run :: "(env \<times> operation) list" where
  "promo_run = [(demo_env, Click ''promo1'' ''direct''), (demo_env, ListAll),
                (demo_env, Click ''promo2'' ''direct''),
                (later_env, Create ''https://example.com'' None 5)]"

section \<open>Properties\<close>

subsection \<open>Creation\<close>

lemma saveURLs_urls: "urls (saveURLs e s) = urls s"
  by (simp add: saveURLs_def)

lemma isShortCodeUnique_iff:
  "isShortCodeUnique s c \<longleftrightarrow> c \<notin> shortCode ` set (urls s)"
  by (auto simp: isShortCodeUnique_def list_ex_iff)

lemma freshShortCode_unique_aux:
  assumes "freshShortCode s r k = Some c"
  shows "isShortCodeUnique s c"
proof (rule freshShortCode.raw_induct
    [where P = "\<lambda>s r k c. isShortCodeUnique s c", OF _ assms])
  fix f s r k c
  assume IH: "\<And>s r k c. f s r k = Some c \<Longrightarrow> isShortCodeUnique s c"
    and step: "(let c = generateShortCode r k 6
                in if isShortCodeUnique s c then Some c else f s r (k + 6)) = Some c"
  show "isShortCodeUnique s c"
  proof (cases "isShortCodeUnique s (generateShortCode r k 6)")
    case True
    with step show ?thesis by (simp add: Let_def)
  next
    case False
    with step have "f s r (k + 6) = Some c" by (simp add: Let_def)
    then show ?thesis by (rule IH)
  qed
qed

lemma freshShortCode_returns:
  "isShortCodeUnique s (generateShortCode r (k + 6 * n) 6) \<Longrightarrow> \<exists>c. freshShortCode s r k = Some c"
proof (induction n arbitrary: k)
  case 0
  then show ?case by (subst freshShortCode.simps) simp
next
  case (Suc n)
  have "isShortCodeUnique s (generateShortCode r ((k + 6) + 6 * n) 6)"
    using Suc.prems by (simp add: add.assoc)
  then obtain c where "freshShortCode s r (k + 6) = Some c"
    using Suc.IH by blast
  then show ?case by (subst freshShortCode.simps) (simp add: Let_def)
qed

lemma chooseShortCode_empty: "chooseShortCode e (Some []) s = chooseShortCode e None s"
  by (simp add: chooseShortCode_def)

lemma chooseShortCode_unique:
  "chooseShortCode e custom s = Some (Inr c) \<Longrightarrow> isShortCodeUnique s c"
  by (auto simp: chooseShortCode_def split: option.splits if_splits
      dest: freshShortCode_unique_aux)

lemma chooseShortCode_auto_error:
  "\<not> truthy custom \<Longrightarrow> chooseShortCode e custom s \<noteq> Some (Inl err)"
  by (auto simp: chooseShortCode_def)

lemma create_error_frame:
  "createShortURL e url custom v s = Some (Inl err, s') \<Longrightarrow> s' = s"
  by (auto simp: createShortURL_def Let_def split: if_splits option.splits sum.splits)

lemma create_ok:
  assumes "createShortURL e url custom v s = Some (Inr u, s')"
  shows "urls s' = urls s @ [u]" and "isShortCodeUnique s (shortCode u)"
    and "clicks u = []" and "totalClicks u = 0"
    and "createdAt u = now e" and "expiresAt u = now e + v * 60000"
    and "validityMinutes u = v" and "0 < v"
  using assms
  by (auto simp: createShortURL_def Let_def saveURLs_urls
      split: if_splits option.splits sum.splits dest: chooseShortCode_unique)

lemma create_conflict:
  assumes "isValidURL e url" "0 < v" "matchesAlnum c" "length c \<le> 20"
    and "\<not> isShortCodeUnique s c"
  shows "createShortURL e url (Some c) v s = Some (Inl ShortcodeConflict, s)"
  using assms by (auto simp: createShortURL_def chooseShortCode_def matchesAlnum_def)

lemma create_auto_ok:
  assumes "isValidURL e url" "0 < v" "validTime (now e + v * 60000)" "\<not> truthy custom"
    and "isShortCodeUnique s (generateShortCode (rnd e) (6 * n) 6)"
  shows "\<exists>u s'. createShortURL e url custom v s = Some (Inr u, s')"
proof -
  from freshShortCode_returns [of s "rnd e" 0 n] assms(5)
  obtain c where "freshShortCode s (rnd e) 0 = Some c" by auto
  then have "chooseShortCode e custom s = Some (Inr c)"
    using assms(4) by (simp add: chooseShortCode_def)
  then show ?thesis
    using assms(1-3) by (simp add: createShortURL_def Let_def mult.commute)
qed





subsection \<open>Lookup and in-place update\<close>

lemma find_code_distinct:
  "distinct (map shortCode xs) \<Longrightarrow> u \<in> set xs \<Longrightarrow>
   find (\<lambda>x. shortCode x = shortCode u) xs = Some u"
  by (induction xs) (auto simp: image_iff)

lemma find_code_Some:
  "find (\<lambda>x. shortCode x = c) xs = Some u \<Longrightarrow> u \<in> set xs \<and> shortCode u = c"
  by (induction xs) (auto split: if_splits)

lemma find_append_left:
  "find p xs = Some u \<Longrightarrow> find p (xs @ ys) = Some u"
  by (induction xs) auto

lemma shortCode_addClick: "shortCode (addClick cd u) = shortCode u"
  by (simp add: addClick_def Let_def)

lemma frozen_addClick: "frozen (addClick cd u) = frozen u"
  by (simp add: addClick_def frozen_def Let_def)

lemma map_code_updateFirst:
  "map shortCode (updateFirst p (addClick cd) xs) = map shortCode xs"
  by (induction xs) (auto simp: shortCode_addClick)

lemma map_frozen_updateFirst:
  "map frozen (updateFirst p (addClick cd) xs) = map frozen xs"
  by (induction xs) (auto simp: frozen_addClick)

lemma find_updateFirst_same:
  "find (\<lambda>x. shortCode x = c) (updateFirst (\<lambda>x. shortCode x = c) (addClick cd) xs)
     = map_option (addClick cd) (find (\<lambda>x. shortCode x = c) xs)"
  by (induction xs) (auto simp: shortCode_addClick)

lemma find_updateFirst_other:
  "c' \<noteq> c \<Longrightarrow>
   find (\<lambda>x. shortCode x = c') (updateFirst (\<lambda>x. shortCode x = c) (addClick cd) xs)
     = find (\<lambda>x. shortCode x = c') xs"
  by (induction xs) (auto simp: shortCode_addClick)

lemma counted_updateFirst:
  "list_all (\<lambda>u. totalClicks u = int (length (clicks u))) xs \<Longrightarrow>
   list_all (\<lambda>u. totalClicks u = int (length (clicks u))) (updateFirst p (addClick cd) xs)"
  by (induction xs) (auto simp: addClick_def Let_def)

subsection \<open>recordClick\<close>

lemma recordClick_expired:
  "getURLByShortCode s c = Some u \<Longrightarrow> expiresAt u < now e \<Longrightarrow>
   recordClick e c src s = (Inl Expired, s)"
  by (simp add: recordClick_def isURLExpired_def)

lemma recordClick_error_frame:
  "recordClick e c src s = (Inl err, s') \<Longrightarrow> s' = s"
  by (auto simp: recordClick_def Let_def split: option.splits if_splits)

lemma recordClick_ok:
  assumes "recordClick e c src s = (Inr u', s')"
  shows "\<exists>u cd. getURLByShortCode s c = Some u \<and> u' = addClick cd u
           \<and> getURLByShortCode s' c = Some u'
           \<and> urls s' = updateFirst (\<lambda>x. shortCode x = c) (addClick cd) (urls s)"
  using assms
  by (auto simp: recordClick_def Let_def getURLByShortCode_def saveURLs_urls
      find_updateFirst_same split: option.splits if_splits)

lemma recordClick_urls:
  "\<exists>cd. urls (snd (recordClick e c src s)) = urls s \<or>
        urls (snd (recordClick e c src s)) = updateFirst (\<lambda>x. shortCode x = c) (addClick cd) (urls s)"
  by (auto simp: recordClick_def Let_def saveURLs_urls split: option.splits)

subsection \<open>getAllURLs and deleteExpiredURLs\<close>

lemma getAllURLs_urls: "urls (snd (getAllURLs s)) = sort_key (\<lambda>u. - createdAt u) (urls s)"
  by (simp add: getAllURLs_def Let_def)

lemma sweep_urls:
  "urls (snd (deleteExpiredURLs e s)) = filter (\<lambda>u. \<not> isURLExpired (now e) u) (urls s)"
  by (simp add: deleteExpiredURLs_def Let_def saveURLs_urls)

lemma sweep_count:
  "fst (deleteExpiredURLs e s) =
     int (length (urls s)) - int (length (filter (\<lambda>u. \<not> isURLExpired (now e) u) (urls s)))"
  by (simp add: deleteExpiredURLs_def Let_def)

subsection \<open>Every operation\<close>

lemma exec_urls_cases:
  assumes "exec e op s = Some s'"
  shows "(\<exists>u. urls s' = urls s @ [u] \<and> isShortCodeUnique s (shortCode u)
              \<and> clicks u = [] \<and> totalClicks u = 0
              \<and> (\<exists>url custom v. op = Create url custom v
                    \<and> createShortURL e url custom v s = Some (Inr u, s')))
       \<or> urls s' = urls s
       \<or> (\<exists>c cd. urls s' = updateFirst (\<lambda>x. shortCode x = c) (addClick cd) (urls s))
       \<or> urls s' = sort_key (\<lambda>u. - createdAt u) (urls s)
       \<or> urls s' = filter (\<lambda>u. \<not> isURLExpired (now e) u) (urls s)"
proof (cases op)
  case (Create url custom v)
  with assms obtain res where r: "createShortURL e url custom v s = Some (res, s')"
    by (cases "createShortURL e url custom v s") auto
  show ?thesis
  proof (cases res)
    case (Inl err)
    with r have "s' = s" by (auto dest: create_error_frame)
    then show ?thesis by simp
  next
    case (Inr u)
    with r create_ok [of e url custom v s u s'] Create show ?thesis by auto
  qed
next
  case (Click c src)
  with assms recordClick_urls [of e c src s] show ?thesis by auto
next
  case ListAll
  with assms show ?thesis by (auto simp: getAllURLs_urls)
next
  case Sweep
  with assms show ?thesis by (auto simp: sweep_urls)
qed

lemma distinct_map_sort_key: "distinct (map f (sort_key k xs)) = distinct (map f xs)"
  by (rule mset_eq_imp_distinct_iff) simp

lemma exec_clicksCounted:
  assumes "clicksCounted s" "exec e op s = Some s'"
  shows "clicksCounted s'"
proof -
  let ?ok = "\<lambda>u. totalClicks u = int (length (clicks u))"
  from assms(1) have inv: "list_all ?ok (urls s)" by (simp add: clicksCounted_def)
  from exec_urls_cases [OF assms(2)]
  consider u where "urls s' = urls s @ [u]" "clicks u = []" "totalClicks u = 0"
    | "urls s' = urls s"
    | c cd where "urls s' = updateFirst (\<lambda>x. shortCode x = c) (addClick cd) (urls s)"
    | "urls s' = sort_key (\<lambda>u. - createdAt u) (urls s)"
    | "urls s' = filter (\<lambda>u. \<not> isURLExpired (now e) u) (urls s)"
    by blast
  then have "list_all ?ok (urls s')"
  proof cases
    case 1
    with inv show ?thesis by simp
  next
    case 2
    with inv show ?thesis by simp
  next
    case 3
    with counted_updateFirst [OF inv] show ?thesis by simp
  next
    case 4
    with inv show ?thesis by (simp add: list_all_iff)
  next
    case 5
    with inv show ?thesis by (simp add: list_all_iff)
  qed
  then show ?thesis by (simp add: clicksCounted_def)
qed

lemma exec_codesDistinct:
  assumes "codesDistinct s" "exec e op s = Some s'"
  shows "codesDistinct s'"
proof -
  from assms(1) have inv: "distinct (map shortCode (urls s))" by (simp add: codesDistinct_def)
  from exec_urls_cases [OF assms(2)]
  consider u where "urls s' = urls s @ [u]" "isShortCodeUnique s (shortCode u)"
    | "urls s' = urls s"
    | c cd where "urls s' = updateFirst (\<lambda>x. shortCode x = c) (addClick cd) (urls s)"
    | "urls s' = sort_key (\<lambda>u. - createdAt u) (urls s)"
    | "urls s' = filter (\<lambda>u. \<not> isURLExpired (now e) u) (urls s)"
    by blast
  then have "distinct (map shortCode (urls s'))"
  proof cases
    case 1
    with inv show ?thesis by (simp add: isShortCodeUnique_iff)
  next
    case 2
    with inv show ?thesis by simp
  next
    case 3
    with inv show ?thesis by (simp add: map_code_updateFirst)
  next
    case 4
    with inv show ?thesis by (simp add: distinct_map_sort_key)
  next
    case 5
    with inv show ?thesis by (simp add: distinct_map_filter)
  qed
  then show ?thesis by (simp add: codesDistinct_def)
qed

text \<open>Tracking one record by its code across one operation.\<close>

lemma exec_lookup_frozen:
  assumes "codesDistinct s" "exec e op s = Some s'"
    and "getURLByShortCode s c = Some u" "getURLByShortCode s' c = Some u'"
  shows "frozen u' = frozen u"
proof -
  from assms(1) have inv: "distinct (map shortCode (urls s))" by (simp add: codesDistinct_def)
  let ?p = "\<lambda>x. shortCode x = c"
  from assms(3) have fu: "find ?p (urls s) = Some u" by (simp add: getURLByShortCode_def)
  from assms(4) have fu': "find ?p (urls s') = Some u'" by (simp add: getURLByShortCode_def)
  from find_code_Some [OF fu] have mem: "u \<in> set (urls s)" and code: "shortCode u = c" by auto
  from find_code_Some [OF fu'] have mem': "u' \<in> set (urls s')" and code': "shortCode u' = c"
    by auto
  have uniq: "\<And>x. x \<in> set (urls s) \<Longrightarrow> shortCode x = c \<Longrightarrow> x = u"
    using find_code_distinct [OF inv] fu code by fastforce
  from exec_urls_cases [OF assms(2)]
  consider w where "urls s' = urls s @ [w]"
    | "urls s' = urls s"
    | d cd where "urls s' = updateFirst (\<lambda>x. shortCode x = d) (addClick cd) (urls s)"
    | "urls s' = sort_key (\<lambda>u. - createdAt u) (urls s)"
    | "urls s' = filter (\<lambda>u. \<not> isURLExpired (now e) u) (urls s)"
    by blast
  then show ?thesis
  proof cases
    case 1
    with fu fu' find_append_left [OF fu, of "[w]"] show ?thesis by simp
  next
    case 2
    with fu fu' show ?thesis by simp
  next
    case 3
    show ?thesis
    proof (cases "d = c")
      case True
      with 3 fu fu' have "u' = addClick cd u" by (simp add: find_updateFirst_same)
      then show ?thesis by (simp add: frozen_addClick)
    next
      case False
      then have "c \<noteq> d" by simp
      with 3 fu fu' show ?thesis by (simp add: find_updateFirst_other)
    qed
  next
    case 4
    with mem' have "u' \<in> set (urls s)" by simp
    with code' uniq show ?thesis by simp
  next
    case 5
    with mem' have "u' \<in> set (urls s)" by simp
    with code' uniq show ?thesis by simp
  qed
qed

lemma frozen_fields:
  assumes "frozen u' = frozen u"
  shows "expiresAt u' = expiresAt u" and "createdAt u' = createdAt u"
    and "validityMinutes u' = validityMinutes u" and "shortCode u' = shortCode u"
  using assms by (cases u, cases u', simp add: frozen_def)+



lemma tracked_Some_lookup:
  "tracked c ops s = Some u' \<Longrightarrow> \<exists>u. getURLByShortCode s c = Some u"
  by (cases ops) (auto split: option.splits)

lemma tracked_frozen:
  "codesDistinct s \<Longrightarrow> getURLByShortCode s c = Some u \<Longrightarrow> tracked c ops s = Some u' \<Longrightarrow>
   frozen u' = frozen u"
proof (induction ops arbitrary: s u)
  case Nil
  then show ?case by simp
next
  case (Cons step rest)
  obtain e op where step: "step = (e, op)" by (cases step)
  from Cons.prems(2,3) step obtain s1 where
    ex: "exec e op s = Some s1" and tr: "tracked c rest s1 = Some u'"
    by (auto split: option.splits)
  from tracked_Some_lookup [OF tr] obtain u1 where look1: "getURLByShortCode s1 c = Some u1"
    by blast
  have "frozen u1 = frozen u"
    using exec_lookup_frozen [OF Cons.prems(1) ex Cons.prems(2) look1] .
  moreover have "frozen u' = frozen u1"
    using Cons.IH [OF exec_codesDistinct [OF Cons.prems(1) ex] look1 tr] .
  ultimately show ?case by simp
qed

lemma createAll_distinct:
  "createAll reqs s = Some (us, s') \<Longrightarrow>
   length us = length reqs \<and> distinct (map shortCode us)
   \<and> (\<forall>u\<in>set us. isShortCodeUnique s (shortCode u)) \<and> urls s' = urls s @ us"
proof (induction reqs arbitrary: s us)
  case Nil
  then show ?case by simp
next
  case (Cons req rest)
  obtain e url v where req: "req = (e, url, v)" by (cases req)
  from Cons.prems req obtain u s1 us1 where
    one: "createShortURL e url None v s = Some (Inr u, s1)"
    and more: "createAll rest s1 = Some (us1, s')" and us: "us = u # us1"
    by (auto split: option.splits sum.splits prod.splits)
  from create_ok(1,2) [OF one] have s1: "urls s1 = urls s @ [u]"
    and fresh: "isShortCodeUnique s (shortCode u)" by auto
  from Cons.IH [OF more] have ih: "length us1 = length rest" "distinct (map shortCode us1)"
    "\<forall>w\<in>set us1. isShortCodeUnique s1 (shortCode w)" "urls s' = urls s1 @ us1"
    by auto
  from ih(3) s1 have "\<forall>w\<in>set us1. shortCode w \<noteq> shortCode u \<and> isShortCodeUnique s (shortCode w)"
    by (auto simp: isShortCodeUnique_iff)
  with ih s1 fresh us show ?case by (auto simp: image_iff)
qed

lemma drawn_fresh:
  assumes "length (urls s) < length (remdups (drawnCodes e m))"
  shows "\<exists>n<m. isShortCodeUnique s (generateShortCode (rnd e) (6 * n) 6)"
proof (rule ccontr)
  assume "\<not> ?thesis"
  then have "set (drawnCodes e m) \<subseteq> shortCode ` set (urls s)"
    by (auto simp: drawnCodes_def isShortCodeUnique_iff)
  then have "card (set (drawnCodes e m)) \<le> card (shortCode ` set (urls s))"
    by (intro card_mono) auto
  also have "\<dots> \<le> card (set (urls s))" by (rule card_image_le) simp
  also have "\<dots> \<le> length (urls s)" by (rule card_length)
  finally show False using assms by (simp add: length_remdups_card_conv)
qed

lemma createAll_returns:
  "list_all (creatable s0 k m) reqs \<Longrightarrow> length (urls s) + length reqs \<le> length (urls s0) + k \<Longrightarrow>
   \<exists>us s'. createAll reqs s = Some (us, s')"
proof (induction reqs arbitrary: s)
  case Nil
  then show ?case by simp
next
  case (Cons req rest)
  obtain e url v where req: "req = (e, url, v)" by (cases req)
  from Cons.prems(1) req have first: "creatable s0 k m (e, url, v)"
    and rest: "list_all (creatable s0 k m) rest"
    by simp_all
  from first have ok: "isValidURL e url" "0 < v" "validTime (now e + v * 60000)"
    and enough: "length (urls s0) + k \<le> length (remdups (drawnCodes e m))"
    by (simp_all add: creatable_def)
  from Cons.prems(2) enough have "length (urls s) < length (remdups (drawnCodes e m))"
    by simp
  from drawn_fresh [OF this] obtain n where
    "isShortCodeUnique s (generateShortCode (rnd e) (6 * n) 6)" by blast
  from create_auto_ok [OF ok _ this, of None] obtain u s1 where
    one: "createShortURL e url None v s = Some (Inr u, s1)" by auto
  from create_ok(1) [OF one] Cons.prems(2)
  have "length (urls s1) + length rest \<le> length (urls s0) + k" by simp
  from Cons.IH [OF rest this] obtain us s' where "createAll rest s1 = Some (us, s')"
    by blast
  with one req show ?case by simp
qed

lemma recordClicks_count:
  "getURLByShortCode s c = Some u \<Longrightarrow> recordClicks calls c s = Some s2 \<Longrightarrow>
   \<exists>u2. getURLByShortCode s2 c = Some u2
       \<and> length (clicks u2) = length (clicks u) + length calls
       \<and> (if calls = [] then u2 = u else totalClicks u2 = int (length (clicks u2)))"
proof (induction calls arbitrary: s u)
  case Nil
  then show ?case by simp
next
  case (Cons call rest)
  obtain e src where call: "call = (e, src)" by (cases call)
  from Cons.prems(2) call obtain w s1 where
    step: "recordClick e c src s = (Inr w, s1)" and rest: "recordClicks rest c s1 = Some s2"
    by (auto split: prod.splits sum.splits)
  from recordClick_ok [OF step] Cons.prems(1) obtain cd where
    w: "w = addClick cd u" and look: "getURLByShortCode s1 c = Some w"
    by auto
  from Cons.IH [OF look rest] obtain u2 where
    u2: "getURLByShortCode s2 c = Some u2"
      "length (clicks u2) = length (clicks w) + length rest"
      "if rest = [] then u2 = w else totalClicks u2 = int (length (clicks u2))"
    by blast
  have "length (clicks w) = Suc (length (clicks u))"
    and "totalClicks w = int (length (clicks w))"
    using w by (simp_all add: addClick_def Let_def)
  with u2 show ?case by (auto split: if_splits)
qed

subsection \<open>The sample data, evaluated\<close>

lemmas demo_defs = demo_env_def link_old_def link_new_def two_links_def no_links_def
  made_link_def one_link_def later_env_def

lemma fresh_demo: "freshShortCode \<lparr>urls = [], stored = None\<rparr> (\<lambda>n. n) 0 = Some ''abcdef''"
  by (simp add: freshShortCode.simps isShortCodeUnique_def generateShortCode_def
      charAt_def chars_def upt_rec)

lemma create_demo:
  "createShortURL demo_env ''https://example.com'' None 30 no_links = Some (Inr made_link, one_link)"
  by (simp add: createShortURL_def chooseShortCode_def fresh_demo isValidURL_def
      validTime_def saveURLs_def Let_def demo_defs)


lemma clicks_demo:
  "\<exists>s2 w2. recordClicks [(demo_env, ''direct''), (demo_env, ''email'')] ''abcdef'' one_link = Some s2
     \<and> getURLByShortCode s2 ''abcdef'' = Some w2 \<and> totalClicks w2 = 2 \<and> length (clicks w2) = 2"
  by (simp add: recordClick_def getURLByShortCode_def isURLExpired_def addClick_def
      saveURLs_def Let_def demo_defs)

lemma create_two_demo:
  "\<exists>us s'. createAll [(demo_env, ''https://example.com'', 30), (demo_env, ''https://example.com'', 60)]
       no_links = Some (us, s') \<and> map shortCode us = [''abcdef'', ''ghijkl'']"
  by (simp add: createShortURL_def chooseShortCode_def freshShortCode.simps isShortCodeUnique_def
      generateShortCode_def charAt_def chars_def upt_rec isValidURL_def
      validTime_def saveURLs_def Let_def demo_defs)

lemma drawn_demo: "drawnCodes demo_env 2 = [''abcdef'', ''ghijkl'']"
  by (simp add: drawnCodes_def generateShortCode_def charAt_def chars_def upt_rec demo_env_def)

lemma drawn_demo_distinct: "length (remdups (drawnCodes demo_env 2)) = 2"
  by (simp add: drawn_demo)

lemma creatable_demo: "list_all (creatable no_links (length demo_requests) 2) demo_requests"
proof -
  have ok: "isValidURL demo_env ''https://example.com''"
    "validTime (now demo_env + 30 * 60000)" "validTime (now demo_env + 60 * 60000)"
    by (simp_all add: isValidURL_def validTime_def demo_env_def)
  then show ?thesis
    by (simp add: creatable_def drawn_demo_distinct demo_requests_def no_links_def)
qed

lemma sweep_demo:
  "fst (deleteExpiredURLs demo_env two_links) = 1
   \<and> fst (deleteExpiredURLs demo_env (snd (deleteExpiredURLs demo_env two_links))) = 0"
  by (simp add: deleteExpiredURLs_def isURLExpired_def saveURLs_def Let_def demo_defs)


lemma tracked_promo:
  "tracked ''promo1'' promo_run two_links = Some link_old"
  by (simp add: promo_run_def recordClick_def getURLByShortCode_def isURLExpired_def
      addClick_def saveURLs_def getAllURLs_def createShortURL_def
      chooseShortCode_def isValidURL_def freshShortCode.simps isShortCodeUnique_def
      generateShortCode_def charAt_def chars_def upt_rec
      validTime_def Let_def demo_defs)

section \<open>The claims\<close>

text \<open>
  Claim C1, as stated, fails: listing is not a pure read. On the registry holding the
  older link before the newer one, \<open>getAllURLs\<close> leaves the in-memory sequence in
  the other order.
\<close>

theorem getAllURLs_reorders_counterexample:
  "urls (snd (getAllURLs two_links)) \<noteq> urls two_links"
  by (simp add: getAllURLs_def Let_def two_links_def link_old_def link_new_def)

text \<open>
  Claim C1, amended: \<open>getAllURLs\<close> returns the records ordered by \<open>createdAt\<close>,
  most recent first; the result holds the same records as the registry; the in-memory
  sequence becomes that sorted sequence; the persisted blob is not written.
\<close>

theorem getAllURLs_sorts_in_place:
  "sorted_wrt (\<lambda>a b. createdAt b \<le> createdAt a) (fst (getAllURLs s))
   \<and> mset (fst (getAllURLs s)) = mset (urls s)
   \<and> urls (snd (getAllURLs s)) = fst (getAllURLs s)
   \<and> stored (snd (getAllURLs s)) = stored s"
proof -
  have "sorted (map (\<lambda>u. - createdAt u) (sort_key (\<lambda>u. - createdAt u) (urls s)))"
    by (rule sorted_sort_key)
  then have "sorted_wrt (\<lambda>a b. createdAt b \<le> createdAt a) (sort_key (\<lambda>u. - createdAt u) (urls s))"
    by (simp add: sorted_map)
  then show ?thesis by (simp add: getAllURLs_def Let_def)
qed

theorem getAllURLs_sorts_in_place_witness:
  "fst (getAllURLs two_links) = [link_new, link_old]
   \<and> urls (snd (getAllURLs two_links)) = [link_new, link_old]
   \<and> stored (snd (getAllURLs two_links)) = None
   \<and> sorted_wrt (\<lambda>a b. createdAt b \<le> createdAt a) (fst (getAllURLs two_links))"
  using getAllURLs_sorts_in_place [of two_links]
  by (simp add: getAllURLs_def Let_def two_links_def link_old_def link_new_def)

text \<open>
  Claim C3: in a call whose URL and validity period pass their checks, a custom code
  that matches the format and is the code of a record of the registry makes
  \<open>createShortURL\<close> fail with \<open>ShortcodeConflict\<close> and return the registry as it
  was; and whatever the arguments, a call that fails returns the registry as it was.
\<close>

theorem createShortURL_conflict_atomic:
  "(isValidURL e url \<and> 0 < v \<and> matchesAlnum c \<and> length c \<le> 20
      \<and> (\<exists>u\<in>set (urls s). shortCode u = c)
     \<longrightarrow> createShortURL e url (Some c) v s = Some (Inl ShortcodeConflict, s))
   \<and> (createShortURL e url custom v s = Some (Inl err, s') \<longrightarrow> s' = s)"
  using create_conflict [of e url v c s] create_error_frame [of e url custom v s err s']
  by (auto simp: isShortCodeUnique_iff)

theorem createShortURL_conflict_atomic_witness:
  "isValidURL demo_env ''https://example.com'' \<and> (0::int) < 30 \<and> matchesAlnum ''promo1''
   \<and> length ''promo1'' \<le> 20 \<and> (\<exists>u\<in>set (urls two_links). shortCode u = ''promo1'')
   \<and> createShortURL demo_env ''https://example.com'' (Some ''promo1'') 30 two_links
       = Some (Inl ShortcodeConflict, two_links)
   \<and> createShortURL demo_env ''not-a-url'' None 30 two_links = Some (Inl InvalidURL, two_links)"
  using createShortURL_conflict_atomic
    [of demo_env "''https://example.com''" 30 "''promo1''" two_links None InvalidURL two_links]
  by (simp add: isValidURL_def demo_env_def matchesAlnum_def alnum_def two_links_def
      link_old_def link_new_def createShortURL_def)


text \<open>
  Claim C4: when the record that a code resolves to has its \<open>expiresAt\<close> strictly
  before the clock, \<open>recordClick\<close> fails with \<open>Expired\<close> and returns the registry
  as it was, so no click is appended and \<open>totalClicks\<close> keeps its value. With
  pairwise distinct codes this holds for every record of the registry and its code.
\<close>

theorem recordClick_expired_rejected:
  "(getURLByShortCode s c = Some u \<and> expiresAt u < now e
      \<longrightarrow> recordClick e c src s = (Inl Expired, s))
   \<and> (codesDistinct s \<and> u \<in> set (urls s) \<and> expiresAt u < now e
      \<longrightarrow> recordClick e (shortCode u) src s = (Inl Expired, s))"
proof -
  have "recordClick e (shortCode u) src s = (Inl Expired, s)"
    if "codesDistinct s" "u \<in> set (urls s)" "expiresAt u < now e"
  proof -
    from that(1,2) have "getURLByShortCode s (shortCode u) = Some u"
      by (simp add: codesDistinct_def getURLByShortCode_def find_code_distinct)
    from this that(3) show ?thesis by (rule recordClick_expired)
  qed
  then show ?thesis by (auto intro: recordClick_expired)
qed

theorem recordClick_expired_rejected_witness:
  "getURLByShortCode two_links ''promo1'' = Some link_old
   \<and> codesDistinct two_links \<and> link_old \<in> set (urls two_links)
   \<and> expiresAt link_old < now demo_env
   \<and> recordClick demo_env ''promo1'' ''direct'' two_links = (Inl Expired, two_links)"
  using recordClick_expired_rejected [of two_links "''promo1''" link_old demo_env "''direct''"]
  by (simp add: getURLByShortCode_def codesDistinct_def two_links_def link_old_def
      link_new_def demo_env_def)

text \<open>
  Claim C5: \<open>totalClicks\<close> equals the length of \<open>clicks\<close> for every record. The
  empty registry satisfies it, every operation preserves it, a created record starts
  with no clicks and a total of 0, and after \<open>k\<close> calls of \<open>recordClick\<close> on the
  code of such a record that all return normally, the record has \<open>k\<close> clicks and a
  total of \<open>k\<close>.
\<close>

theorem totalClicks_counts_clicks:
  "clicksCounted \<lparr>urls = [], stored = st\<rparr>
   \<and> (clicksCounted s \<and> exec e op s = Some s' \<longrightarrow> clicksCounted s')
   \<and> (createShortURL e1 url custom v s1 = Some (Inr u, s1')
        \<longrightarrow> clicks u = [] \<and> totalClicks u = 0)
   \<and> (getURLByShortCode s2 c = Some w \<and> clicks w = [] \<and> totalClicks w = 0
        \<and> recordClicks calls c s2 = Some s3
        \<longrightarrow> (\<exists>w3. getURLByShortCode s3 c = Some w3
                \<and> totalClicks w3 = int (length calls)
                \<and> length (clicks w3) = length calls))"
proof -
  have a: "clicksCounted \<lparr>urls = [], stored = st\<rparr>" by (simp add: clicksCounted_def)
  have b: "clicksCounted s \<and> exec e op s = Some s' \<longrightarrow> clicksCounted s'"
    by (auto intro: exec_clicksCounted)
  have c: "createShortURL e1 url custom v s1 = Some (Inr u, s1')
        \<longrightarrow> clicks u = [] \<and> totalClicks u = 0"
    by (auto dest: create_ok(3,4))
  have d: "\<exists>w3. getURLByShortCode s3 c = Some w3
                \<and> totalClicks w3 = int (length calls) \<and> length (clicks w3) = length calls"
    if "getURLByShortCode s2 c = Some w" "clicks w = []" "totalClicks w = 0"
      "recordClicks calls c s2 = Some s3"
    using recordClicks_count [OF that(1,4)] that(2,3) by (auto split: if_splits)
  from a b c d show ?thesis by blast
qed

theorem totalClicks_counts_clicks_witness:
  "clicksCounted two_links
   \<and> exec demo_env (Click ''promo2'' ''direct'') two_links
        = Some (snd (recordClick demo_env ''promo2'' ''direct'' two_links))
   \<and> clicksCounted (snd (recordClick demo_env ''promo2'' ''direct'' two_links))
   \<and> createShortURL demo_env ''https://example.com'' None 30 no_links
        = Some (Inr made_link, one_link)
   \<and> clicks made_link = [] \<and> totalClicks made_link = 0
   \<and> getURLByShortCode one_link ''abcdef'' = Some made_link
   \<and> (\<exists>s2 w2. recordClicks [(demo_env, ''direct''), (demo_env, ''email'')] ''abcdef'' one_link
          = Some s2
        \<and> getURLByShortCode s2 ''abcdef'' = Some w2
        \<and> totalClicks w2 = 2 \<and> length (clicks w2) = 2)"
proof -
  let ?calls = "[(demo_env, ''direct''), (demo_env, ''email'')]"
  have a: "clicksCounted two_links" by (simp add: clicksCounted_def demo_defs)
  have b: "exec demo_env (Click ''promo2'' ''direct'') two_links
        = Some (snd (recordClick demo_env ''promo2'' ''direct'' two_links))" by simp
  have c: "createShortURL demo_env ''https://example.com'' None 30 no_links
        = Some (Inr made_link, one_link)" by (rule create_demo)
  have d: "getURLByShortCode one_link ''abcdef'' = Some made_link"
    "clicks made_link = []" "totalClicks made_link = 0"
    by (simp_all add: getURLByShortCode_def demo_defs)
  from clicks_demo obtain s2 where e: "recordClicks ?calls ''abcdef'' one_link = Some s2"
    by blast
  note T = totalClicks_counts_clicks
    [where s = two_links and e = demo_env and op = "Click ''promo2'' ''direct''"
      and s' = "snd (recordClick demo_env ''promo2'' ''direct'' two_links)"
      and ?e1.0 = demo_env and url = "''https://example.com''" and custom = None and v = 30
      and ?s1.0 = no_links and u = made_link and s1' = one_link
      and ?s2.0 = one_link and c = "''abcdef''" and w = made_link and calls = ?calls
      and ?s3.0 = s2]
  have r1: "clicksCounted (snd (recordClick demo_env ''promo2'' ''direct'' two_links))"
    using T a b by blast
  have "\<exists>w3. getURLByShortCode s2 ''abcdef'' = Some w3
          \<and> totalClicks w3 = int (length ?calls) \<and> length (clicks w3) = length ?calls"
    using T d e by blast
  then have r2: "\<exists>w2. getURLByShortCode s2 ''abcdef'' = Some w2
          \<and> totalClicks w2 = 2 \<and> length (clicks w2) = 2"
    by (simp add: numeral_2_eq_2)
  show ?thesis using a b r1 c d e r2 by blast
qed




text \<open>
  Claim C7: \<open>N\<close> creations without custom codes that all return a record yield
  \<open>N\<close> records with pairwise distinct short codes, none of them a code the
  registry held before, appended to the registry in the order of the calls. And they
  do all return a record when every request is valid and the random source of every
  call draws, within some number of rounds, more different codes than the registry
  holds after the \<open>N\<close> creations.
\<close>

theorem auto_codes_distinct:
  "(createAll reqs s = Some (us, s')
     \<longrightarrow> length us = length reqs \<and> distinct (map shortCode us)
         \<and> (\<forall>u\<in>set us. isShortCodeUnique s (shortCode u))
         \<and> urls s' = urls s @ us)
   \<and> (list_all (creatable s1 (length reqs1) m) reqs1
     \<longrightarrow> (\<exists>us1 s1'. createAll reqs1 s1 = Some (us1, s1')
            \<and> length us1 = length reqs1 \<and> distinct (map shortCode us1)
            \<and> urls s1' = urls s1 @ us1))"
proof -
  have "\<exists>us1 s1'. createAll reqs1 s1 = Some (us1, s1')
            \<and> length us1 = length reqs1 \<and> distinct (map shortCode us1)
            \<and> urls s1' = urls s1 @ us1"
    if "list_all (creatable s1 (length reqs1) m) reqs1"
  proof -
    from createAll_returns [OF that, of s1] obtain us1 s1' where
      r: "createAll reqs1 s1 = Some (us1, s1')" by auto
    from createAll_distinct [OF r] r show ?thesis by blast
  qed
  with createAll_distinct [of reqs s us s'] show ?thesis by blast
qed

theorem auto_codes_distinct_witness:
  "list_all (creatable no_links (length demo_requests) 2) demo_requests
   \<and> (\<exists>us s'. createAll demo_requests no_links = Some (us, s')
      \<and> map shortCode us = [''abcdef'', ''ghijkl'']
      \<and> length us = length demo_requests \<and> distinct (map shortCode us))"
proof -
  note T = auto_codes_distinct [where ?s1.0 = no_links and ?reqs1.0 = demo_requests and m = 2]
  from T [THEN conjunct2, THEN mp, OF creatable_demo] obtain us s' where
    r: "createAll demo_requests no_links = Some (us, s')"
    and p: "length us = length demo_requests" "distinct (map shortCode us)"
    by (elim exE conjE)
  from create_two_demo r have codes: "map shortCode us = [''abcdef'', ''ghijkl'']"
    by (auto simp: demo_requests_def)
  from creatable_demo r codes p show ?thesis
    by (intro conjI exI [of _ us] exI [of _ s']) simp_all
qed

text \<open>
  Claim C8: with the clock at the same value for both calls, a second
  \<open>deleteExpiredURLs\<close> right after a first one returns 0, since after the first no
  record of the registry is expired.
\<close>

theorem sweep_twice_zero:
  "now e2 = now e1
   \<longrightarrow> fst (deleteExpiredURLs e2 (snd (deleteExpiredURLs e1 s))) = 0
       \<and> (\<forall>u\<in>set (urls (snd (deleteExpiredURLs e1 s))). \<not> isURLExpired (now e1) u)"
  by (simp add: sweep_count sweep_urls)

theorem sweep_twice_zero_witness:
  "now demo_env = now demo_env
   \<and> fst (deleteExpiredURLs demo_env two_links) = 1
   \<and> fst (deleteExpiredURLs demo_env (snd (deleteExpiredURLs demo_env two_links))) = 0"
  using sweep_twice_zero [where ?e1.0 = demo_env and ?e2.0 = demo_env and s = two_links]
    sweep_demo
  by simp

text \<open>
  Claim C9: an empty-string custom code is handled exactly like no custom code. The
  empty string does not match the format rule, yet the call never fails with
  \<open>InvalidShortcodeFormat\<close>; for a valid URL and a positive validity period (whose
  expiry date is representable), as soon as the random source draws a code not in the
  registry the call succeeds and appends a record with a fresh code.
\<close>

theorem empty_custom_code_is_auto:
  "createShortURL e url (Some []) v s = createShortURL e url None v s
   \<and> \<not> matchesAlnum []
   \<and> createShortURL e url (Some []) v s \<noteq> Some (Inl InvalidShortcodeFormat, s')
   \<and> (isValidURL e url \<and> 0 < v \<and> validTime (now e + v * 60000)
        \<and> isShortCodeUnique s (generateShortCode (rnd e) (6 * n) 6)
      \<longrightarrow> (\<exists>u s1. createShortURL e url (Some []) v s = Some (Inr u, s1)
             \<and> isShortCodeUnique s (shortCode u) \<and> urls s1 = urls s @ [u]))"
proof -
  have a: "createShortURL e url (Some []) v s = createShortURL e url None v s"
    by (simp add: createShortURL_def chooseShortCode_empty)
  have b: "\<not> matchesAlnum []" by (simp add: matchesAlnum_def)
  have c: "createShortURL e url (Some []) v s \<noteq> Some (Inl InvalidShortcodeFormat, s')"
    using chooseShortCode_auto_error [of "Some []" e s InvalidShortcodeFormat]
    by (auto simp: createShortURL_def Let_def split: if_splits option.splits sum.splits)
  have d: "\<exists>u s1. createShortURL e url (Some []) v s = Some (Inr u, s1)
             \<and> isShortCodeUnique s (shortCode u) \<and> urls s1 = urls s @ [u]"
    if "isValidURL e url" "0 < v" "validTime (now e + v * 60000)"
      "isShortCodeUnique s (generateShortCode (rnd e) (6 * n) 6)"
  proof -
    from create_auto_ok [OF that(1-3) _ that(4), of "Some []"]
    obtain u s1 where ok: "createShortURL e url (Some []) v s = Some (Inr u, s1)" by auto
    with create_ok(1,2) [OF ok] show ?thesis by blast
  qed
  from a b c d show ?thesis by blast
qed

theorem empty_custom_code_is_auto_witness:
  "isValidURL demo_env ''https://example.com'' \<and> (0::int) < 30
   \<and> validTime (now demo_env + 30 * 60000)
   \<and> isShortCodeUnique no_links (generateShortCode (rnd demo_env) (6 * 0) 6)
   \<and> createShortURL demo_env ''https://example.com'' (Some []) 30 no_links
       = Some (Inr made_link, one_link)
   \<and> createShortURL demo_env ''https://example.com'' (Some []) 30 no_links
       = createShortURL demo_env ''https://example.com'' None 30 no_links"
proof -
  have h: "isValidURL demo_env ''https://example.com''" "(0::int) < 30"
    "validTime (now demo_env + 30 * 60000)"
    "isShortCodeUnique no_links (generateShortCode (rnd demo_env) (6 * 0) 6)"
    by (simp_all add: isValidURL_def validTime_def isShortCodeUnique_def demo_defs)
  note T = empty_custom_code_is_auto
    [where e = demo_env and url = "''https://example.com''" and v = 30 and s = no_links
      and n = 0 and s' = no_links]
  from T have eq: "createShortURL demo_env ''https://example.com'' (Some []) 30 no_links
       = createShortURL demo_env ''https://example.com'' None 30 no_links" by blast
  with create_demo h show ?thesis by simp
qed

text \<open>
  Claim C10: expiry is permanent. \<open>isURLExpired\<close> is monotone in the clock, and
  along any run of operations the record behind a code keeps its \<open>expiresAt\<close>: once
  expired at \<open>t\<close>, it is expired at every later \<open>t'\<close>. (The registries are those with
  pairwise distinct codes, which every operation preserves.)
\<close>

theorem expiry_permanent:
  "(isURLExpired t u \<and> t \<le> t' \<longrightarrow> isURLExpired t' u)
   \<and> (codesDistinct s \<and> getURLByShortCode s c = Some w \<and> tracked c ops s = Some w'
      \<longrightarrow> expiresAt w' = expiresAt w
          \<and> (isURLExpired t w \<and> t \<le> t' \<longrightarrow> isURLExpired t' w'))"
proof -
  have "expiresAt w' = expiresAt w"
    if "codesDistinct s" "getURLByShortCode s c = Some w" "tracked c ops s = Some w'"
    using frozen_fields(1) [OF tracked_frozen [OF that]] .
  then show ?thesis by (auto simp: isURLExpired_def)
qed

theorem expiry_permanent_witness:
  "isURLExpired 61001 link_old \<and> (61001::int) \<le> 1700000060001
   \<and> codesDistinct two_links \<and> getURLByShortCode two_links ''promo1'' = Some link_old
   \<and> tracked ''promo1'' promo_run two_links = Some link_old
   \<and> isURLExpired 1700000060001 link_old"
proof -
  have h: "isURLExpired 61001 link_old" "(61001::int) \<le> 1700000060001"
    "codesDistinct two_links" "getURLByShortCode two_links ''promo1'' = Some link_old"
    by (simp_all add: isURLExpired_def codesDistinct_def getURLByShortCode_def demo_defs)
  note T = expiry_permanent
    [where t = 61001 and t' = 1700000060001 and u = link_old and s = two_links
      and c = "''promo1''" and w = link_old and ops = promo_run and w' = link_old]
  from T h tracked_promo have "isURLExpired 1700000060001 link_old" by blast
  with h tracked_promo show ?thesis by blast
qed

end
